theory Spec2Isabelle
  imports Main "HOL-Library.Sublist"
begin

section \<open>Strings and the line splitter (\<^verbatim>\<open>onLine\<close>)\<close>

text \<open>
  A JavaScript string is modelled as a \<^typ>\<open>string\<close>; one \<^typ>\<open>char\<close> stands for one
  code unit. The stream is read with \<^verbatim>\<open>setEncoding("utf8")\<close>, so the chunks the
  \<^verbatim>\<open>data\<close> listener receives are already decoded strings, and the content of the
  stream is their concatenation.
\<close>

definition newline :: char where
  "newline = CHR 0x0A"

text \<open>
  \<^verbatim>\<open>str.split(sep)\<close> for a separator of one code unit. The result is never empty:
  \<^verbatim>\<open>"".split("\n")\<close> is \<^verbatim>\<open>[""]\<close>.
\<close>

fun split_on :: "char \<Rightarrow> string \<Rightarrow> string list" where
  "split_on c [] = [[]]"
| "split_on c (x # xs) =
     (if x = c then [] # split_on c xs
      else (x # hd (split_on c xs)) # tl (split_on c xs))"

text \<open>\<^verbatim>\<open>arr.join(sep)\<close>, the inverse the round trip is stated with.\<close>

fun join_with :: "char \<Rightarrow> string list \<Rightarrow> string" where
  "join_with c [] = []"
| "join_with c [l] = l"
| "join_with c (l # m # ls) = l @ c # join_with c (m # ls)"

text \<open>
  The state of one \<^verbatim>\<open>onLine\<close> call: the closure variable \<^verbatim>\<open>buffer\<close>, and the
  arguments the callback has been invoked with so far, oldest first.
\<close>

record splitter =
  buffer :: string
  calls :: "string list"

definition splitter_init :: splitter where
  "splitter_init = \<lparr>buffer = [], calls = []\<rparr>"

text \<open>
  The \<^verbatim>\<open>data\<close> listener:
  \<^verbatim>\<open>
    const data = buffer + d
    const split = data.split("\n")
    const last = split.length - 1
    for (let i = 0; i < last; ++i) { callback(split[i]) }
    buffer = split[last]
  \<close>
\<close>

definition on_data :: "string \<Rightarrow> splitter \<Rightarrow> splitter" where
  "on_data d s =
     (let data = buffer s @ d;
          split = split_on newline data;
          last = length split - 1
      in \<lparr>buffer = split ! last,
          calls = calls s @ map (\<lambda>i. split ! i) [0..<last]\<rparr>)"

text \<open>The \<^verbatim>\<open>end\<close> listener: \<^verbatim>\<open>() => callback(buffer)\<close>.\<close>

definition on_end :: "splitter \<Rightarrow> splitter" where
  "on_end s = s\<lparr>calls := calls s @ [buffer s]\<rparr>"

text \<open>
  The events \<^verbatim>\<open>onLine\<close> listens to. A readable stream that ends emits its chunks as
  \<^verbatim>\<open>data\<close> events and then \<^verbatim>\<open>end\<close> once.
\<close>

datatype stream_event = Data string | End

fun handle_event :: "splitter \<Rightarrow> stream_event \<Rightarrow> splitter" where
  "handle_event s (Data d) = on_data d s"
| "handle_event s End = on_end s"

definition feed :: "string list \<Rightarrow> splitter \<Rightarrow> splitter" where
  "feed chunks s = foldl (\<lambda>s d. on_data d s) s chunks"

definition stream_of :: "string list \<Rightarrow> stream_event list" where
  "stream_of chunks = map Data chunks @ [End]"

text \<open>The callback invocations of one \<^verbatim>\<open>onLine\<close> call over the events of its stream.\<close>

definition onLine :: "stream_event list \<Rightarrow> string list" where
  "onLine evs = calls (foldl handle_event splitter_init evs)"

text \<open>
  The part of a stream's content after its last newline (all of it when it has none):
  the line that is still incomplete when the stream ends.
\<close>

definition final_segment :: "string \<Rightarrow> string" where
  "final_segment xs = rev (takeWhile (\<lambda>x. x \<noteq> newline) (rev xs))"

section \<open>Promises and \<^verbatim>\<open>wrapExit\<close>\<close>

text \<open>
  An \<^verbatim>\<open>Error\<close> object is identified by its message. A promise is pending until its
  first \<^verbatim>\<open>resolve\<close> or \<^verbatim>\<open>reject\<close>; later calls of either have no effect.
\<close>

datatype js_error = JsError string

datatype 'a settled = Pending | Fulfilled 'a | Rejected js_error

definition resolve :: "'a \<Rightarrow> 'a settled \<Rightarrow> 'a settled" where
  "resolve v p = (case p of Pending \<Rightarrow> Fulfilled v | _ \<Rightarrow> p)"

definition reject :: "js_error \<Rightarrow> 'a settled \<Rightarrow> 'a settled" where
  "reject e p = (case p of Pending \<Rightarrow> Rejected e | _ \<Rightarrow> p)"

text \<open>
  The template literal \<^verbatim>\<open>`Command "${proc.spawnfile}" failed with code ${code}`\<close>. The
  exit code is a non-negative integer, printed in decimal, or \<^verbatim>\<open>null\<close> when the
  process was ended by a signal.
\<close>

fun show_nat :: "nat \<Rightarrow> string" where
  "show_nat n =
     (if n < 10 then [''0123456789'' ! n]
      else show_nat (n div 10) @ [''0123456789'' ! (n mod 10)])"

declare show_nat.simps [simp del]

definition show_code :: "nat option \<Rightarrow> string" where
  "show_code code = (case code of None \<Rightarrow> ''null'' | Some n \<Rightarrow> show_nat n)"

definition exit_error :: "string \<Rightarrow> nat option \<Rightarrow> js_error" where
  "exit_error spawnfile code =
     JsError (''Command '' @ [CHR 0x22] @ spawnfile @ [CHR 0x22] @
              '' failed with code '' @ show_code code)"

text \<open>
  The events of a child process that \<^verbatim>\<open>wrapExit\<close> listens to, and its two listeners:
  \<^verbatim>\<open>proc.on("error", reject)\<close> and
  \<^verbatim>\<open>proc.on("exit", (code) => { if (code === 0) resolve() else reject(new Error(...)) })\<close>.
  Node documents that \<^verbatim>\<open>exit\<close> may or may not fire after \<^verbatim>\<open>error\<close>, so the events
  of one process are a list, handled in order.
\<close>

datatype proc_event = ProcError js_error | ProcExit "nat option"

fun wrapExit_listener :: "string \<Rightarrow> unit settled \<Rightarrow> proc_event \<Rightarrow> unit settled" where
  "wrapExit_listener spawnfile p (ProcError e) = reject e p"
| "wrapExit_listener spawnfile p (ProcExit code) =
     (if code = Some 0 then resolve () p else reject (exit_error spawnfile code) p)"

definition wrapExit :: "string \<Rightarrow> proc_event list \<Rightarrow> unit settled" where
  "wrapExit spawnfile evs = foldl (wrapExit_listener spawnfile) Pending evs"

text \<open>Reading a decimal numeral back, to state that a message determines the exit code.\<close>

definition digit_value :: "char \<Rightarrow> nat" where
  "digit_value c = of_char c - 48"

definition read_nat :: "string \<Rightarrow> nat" where
  "read_nat s = foldl (\<lambda>acc c. 10 * acc + digit_value c) 0 s"

section \<open>The file system\<close>

text \<open>
  A path is the list of its components, and the file system is the set of paths that
  exist. Whether an operation of \<^verbatim>\<open>fs\<close> fails (permissions, a full disk) is decided
  outside the program: each operation takes its fault, or its result, as an argument.
\<close>

type_synonym path = "string list"

text \<open>
  \<^verbatim>\<open>path.join(base, rel)\<close> for an absolute, normalised \<open>base\<close> (as \<^verbatim>\<open>os.tmpdir()\<close>
  and the paths made from it are) and a string \<open>rel\<close>. Node joins the two with a
  separator and normalises the result: \<open>rel\<close> is cut at every separator (\<^verbatim>\<open>/\<close>, and
  on Windows also the backslash), empty segments and \<^verbatim>\<open>.\<close> are skipped, and \<^verbatim>\<open>..\<close>
  removes the component before it; at the root it is skipped.
\<close>

datatype platform = Posix | Win32

fun is_separator :: "platform \<Rightarrow> char \<Rightarrow> bool" where
  "is_separator Posix c = (c = CHR ''/'')"
| "is_separator Win32 c = (c = CHR ''/'' \<or> c = CHR 0x5C)"

fun segments :: "(char \<Rightarrow> bool) \<Rightarrow> string \<Rightarrow> string list" where
  "segments sep [] = [[]]"
| "segments sep (x # xs) =
     (if sep x then [] # segments sep xs
      else (case segments sep xs of
              [] \<Rightarrow> [[x]]
            | seg # segs \<Rightarrow> (x # seg) # segs))"

fun normalize_onto :: "path \<Rightarrow> string list \<Rightarrow> path" where
  "normalize_onto acc [] = acc"
| "normalize_onto acc (seg # segs) =
     (if seg = [] \<or> seg = ''.'' then normalize_onto acc segs
      else if seg = ''..'' then normalize_onto (butlast acc) segs
      else normalize_onto (acc @ [seg]) segs)"

definition path_join :: "platform \<Rightarrow> path \<Rightarrow> string \<Rightarrow> path" where
  "path_join pf base rel = normalize_onto base (segments (is_separator pf) rel)"

text \<open>
  \<^verbatim>\<open>mkdir(p, { recursive: true })\<close> creates \<open>p\<close> and its missing parents.
  \<^verbatim>\<open>mkdtemp(prefix)\<close> creates a directory whose path is the prefix followed by six
  random characters: they extend the last component of the prefix.
\<close>

definition mkdir_recursive :: "js_error option \<Rightarrow> path \<Rightarrow> path set \<Rightarrow> js_error + path set" where
  "mkdir_recursive fault p fs =
     (case fault of Some e \<Rightarrow> Inl e | None \<Rightarrow> Inr (fs \<union> set (prefixes p)))"

definition mkdtemp ::
  "js_error + string \<Rightarrow> path \<Rightarrow> path set \<Rightarrow> js_error + path \<times> path set" where
  "mkdtemp result pre fs =
     (case result of
        Inl e \<Rightarrow> Inl e
      | Inr rand \<Rightarrow>
          (let dir = (if pre = [] then [rand] else butlast pre @ [last pre @ rand])
           in Inr (dir, insert dir fs)))"

text \<open>
  Modelled from the spec: \<^verbatim>\<open>fs.promises.rmdir(dir, { recursive: true })\<close>, a function of
  the platform that the sources only call. The specification describes the removal as
  deleting the directory recursively and ``treating already absent as success'': every
  path at or below \<open>p\<close> is removed, and removing nothing is not an error. A fault
  is a failure for another reason.
\<close>

definition rmdir_recursive :: "js_error option \<Rightarrow> path \<Rightarrow> path set \<Rightarrow> js_error + path set" where
  "rmdir_recursive fault p fs =
     (case fault of Some e \<Rightarrow> Inl e | None \<Rightarrow> Inr {q \<in> fs. \<not> prefix p q})"

text \<open>
  \<^verbatim>\<open>clean\<close>:
  \<^verbatim>\<open>
    const dir = path.join(os.tmpdir(), `coder/${name}`)
    await fs.promises.rmdir(dir, { recursive: true })
  \<close>
  and \<^verbatim>\<open>tmpdir\<close>:
  \<^verbatim>\<open>
    const dir = path.join(os.tmpdir(), `coder/${name}`)
    await fs.promises.mkdir(dir, { recursive: true })
    return fs.promises.mkdtemp(path.join(dir, "tmp-"), { encoding: "utf8" })
  \<close>
  The name is any string: \<^verbatim>\<open>path.join\<close> cuts it at its separators and resolves its
  \<^verbatim>\<open>..\<close> segments, so the directory need not lie below \<^verbatim>\<open>coder\<close>. \<^verbatim>\<open>tmpdir\<close> also
  returns the file system it leaves.
\<close>

definition clean ::
  "platform \<Rightarrow> path \<Rightarrow> string \<Rightarrow> js_error option \<Rightarrow> path set \<Rightarrow> js_error + path set" where
  "clean pf os_tmp name fault fs =
     (let dir = path_join pf os_tmp (''coder/'' @ name)
      in rmdir_recursive fault dir fs)"

definition tmpdir ::
  "platform \<Rightarrow> path \<Rightarrow> string \<Rightarrow> js_error option \<Rightarrow> js_error + string \<Rightarrow> path set \<Rightarrow>
   (js_error + path) \<times> path set" where
  "tmpdir pf os_tmp name mkdir_flt mkdtemp_res fs =
     (let dir = path_join pf os_tmp (''coder/'' @ name)
      in case mkdir_recursive mkdir_flt dir fs of
           Inl e \<Rightarrow> (Inl e, fs)
         | Inr fs' \<Rightarrow>
             (case mkdtemp mkdtemp_res (path_join pf dir ''tmp-'') fs' of
                Inl e \<Rightarrow> (Inl e, fs')
              | Inr (temp, fs'') \<Rightarrow> (Inr temp, fs'')))"

text \<open>
  \<^verbatim>\<open>unzip(zipPath, { dir })\<close>: the entries of the archive, given from outside as paths
  relative to the target directory, are created below it.
\<close>

definition unzip :: "js_error + path list \<Rightarrow> path \<Rightarrow> path \<Rightarrow> path set \<Rightarrow> js_error + path set" where
  "unzip result zipPath dir fs =
     (case result of
        Inl e \<Rightarrow> Inl e
      | Inr entries \<Rightarrow> Inr (fs \<union> set (map (\<lambda>entry. dir @ entry) entries)))"

section \<open>Streams, listeners and the dispatch of events\<close>

text \<open>
  The stages a pipeline of this module can have: the input stream \<^verbatim>\<open>response\<close>, the
  gunzip stage \<^verbatim>\<open>decompress\<close>, the tar extraction \<^verbatim>\<open>destination\<close>, and the file
  sink \<^verbatim>\<open>write\<close> of the zip path. A stage that has not been created yet is absent.
  A live stage finishes, or it is destroyed with an error. A destroyed stage emits
  nothing more, and neither does a sink or the input stream that has finished. The gunzip
  stage is a transform: its \<^verbatim>\<open>finish\<close> says that all its input has been written to
  it, and it can still fail while it produces the rest of its output (a truncated archive
  is found out then).
\<close>

datatype stage = Response | Decompress | Destination | WriteSink

datatype lifecycle = Absent | Live | Finished | Destroyed js_error

text \<open>
  What a stage emits, the event names listeners are attached to, and the three listener
  bodies of the module: \<^verbatim>\<open>(error) => next.destroy(error)\<close>, \<^verbatim>\<open>reject\<close> and
  \<^verbatim>\<open>resolve\<close>.
\<close>

datatype signal = SigError js_error | SigFinish

datatype evname = OnError | OnFinish

datatype handler = DestroyStage stage | RejectPromise | ResolvePromise

text \<open>
  What happens to a pipeline from outside: the input stream has a chunk of bytes to
  deliver, a stage fails (the network drops, the data is corrupt, the disk is full), or a
  stage completes its work.
\<close>

datatype happening = Chunk string | Fails stage js_error | Completes stage

text \<open>
  The state of one extraction: the file system; whether the input stream is in flowing
  mode, and the chunks it holds back while it is paused; the pipes and the chunks each
  stage has been written; the chunks emitted in flowing mode with no consumer attached
  (these are lost); the listeners in the order they were attached; the life cycle of each
  stage; the promise the extraction awaits; and the events emitted but not yet handled.
\<close>

record pipeline =
  files :: "path set"
  flowing :: bool
  backlog :: "string list"
  pipes :: "(stage \<times> stage) list"
  received :: "(stage \<times> string) list"
  dropped :: "string list"
  listeners :: "(stage \<times> evname \<times> handler) list"
  state_of :: "stage \<Rightarrow> lifecycle"
  promise :: "unit settled"
  queue :: "(stage \<times> signal) list"

text \<open>At the call, only the input stream exists; it may or may not be flowing.\<close>

definition initial :: "path set \<Rightarrow> bool \<Rightarrow> pipeline" where
  "initial fs0 fl =
     \<lparr>files = fs0, flowing = fl, backlog = [], pipes = [], received = [], dropped = [],
      listeners = [], state_of = (\<lambda>_. Absent)(Response := Live), promise = Pending, queue = []\<rparr>"

text \<open>
  A flowing input stream hands the chunks it holds to the stages it is piped into; with
  no pipe attached they are dropped. A paused stream keeps them.
\<close>

definition flow :: "pipeline \<Rightarrow> pipeline" where
  "flow s =
     (if flowing s then
        (let dests = [t. (src, t) \<leftarrow> pipes s, src = Response]
         in s\<lparr>received := received s @ [(t, d). d \<leftarrow> backlog s, t \<leftarrow> dests],
              dropped := dropped s @ (if dests = [] then backlog s else []),
              backlog := []\<rparr>)
      else s)"

text \<open>
  \<^verbatim>\<open>response.pause()\<close>, \<^verbatim>\<open>response.resume()\<close>, the creation of a stage
  (\<^verbatim>\<open>zlib.createGunzip()\<close>, \<^verbatim>\<open>tar.extract(dir)\<close>, \<^verbatim>\<open>fs.createWriteStream(file)\<close>),
  \<^verbatim>\<open>src.pipe(dst)\<close> and \<^verbatim>\<open>stage.on(event, listener)\<close>. Node starts the flow that
  \<^verbatim>\<open>pipe\<close> and \<^verbatim>\<open>resume\<close> ask for only once the running synchronous code has returned;
  in both extractors \<^verbatim>\<open>resume\<close> is the last call of its synchronous block, so the held
  chunks are handed over there.
\<close>

definition pause :: "pipeline \<Rightarrow> pipeline" where
  "pause s = s\<lparr>flowing := False\<rparr>"

definition resume :: "pipeline \<Rightarrow> pipeline" where
  "resume s = flow (s\<lparr>flowing := True\<rparr>)"

definition create :: "stage \<Rightarrow> pipeline \<Rightarrow> pipeline" where
  "create st s = s\<lparr>state_of := (state_of s)(st := Live)\<rparr>"

definition pipe :: "stage \<Rightarrow> stage \<Rightarrow> pipeline \<Rightarrow> pipeline" where
  "pipe src dst s = s\<lparr>pipes := pipes s @ [(src, dst)]\<rparr>"

definition on :: "stage \<Rightarrow> evname \<Rightarrow> handler \<Rightarrow> pipeline \<Rightarrow> pipeline" where
  "on st ev h s = s\<lparr>listeners := listeners s @ [(st, ev, h)]\<rparr>"

text \<open>
  The stages that can still fail: the live ones, and the gunzip stage after its
  \<^verbatim>\<open>finish\<close>. \<^verbatim>\<open>stage.destroy(error)\<close> ends such a stage and makes it emit
  \<^verbatim>\<open>error\<close>; on any other stage it does nothing. A live stage that completes emits
  \<^verbatim>\<open>finish\<close>.
\<close>

definition can_fail :: "pipeline \<Rightarrow> stage \<Rightarrow> bool" where
  "can_fail s st \<longleftrightarrow>
     state_of s st = Live \<or> (st = Decompress \<and> state_of s st = Finished)"

definition destroy :: "stage \<Rightarrow> js_error \<Rightarrow> pipeline \<Rightarrow> pipeline" where
  "destroy st e s =
     (if can_fail s st
      then s\<lparr>state_of := (state_of s)(st := Destroyed e), queue := queue s @ [(st, SigError e)]\<rparr>
      else s)"

definition complete :: "stage \<Rightarrow> pipeline \<Rightarrow> pipeline" where
  "complete st s =
     (if state_of s st = Live
      then s\<lparr>state_of := (state_of s)(st := Finished), queue := queue s @ [(st, SigFinish)]\<rparr>
      else s)"

fun name_of :: "signal \<Rightarrow> evname" where
  "name_of (SigError e) = OnError"
| "name_of SigFinish = OnFinish"

fun run_handler :: "signal \<Rightarrow> pipeline \<Rightarrow> handler \<Rightarrow> pipeline" where
  "run_handler (SigError e) s (DestroyStage t) = destroy t e s"
| "run_handler SigFinish s (DestroyStage t) = s"
| "run_handler (SigError e) s RejectPromise = s\<lparr>promise := reject e (promise s)\<rparr>"
| "run_handler SigFinish s RejectPromise = s"
| "run_handler sig s ResolvePromise = s\<lparr>promise := resolve () (promise s)\<rparr>"

text \<open>Emitting an event runs the listeners attached to it, in the order of attachment.\<close>

definition emit :: "stage \<times> signal \<Rightarrow> pipeline \<Rightarrow> pipeline" where
  "emit ev s =
     foldl (run_handler (snd ev)) s
       [h. (st, n, h) \<leftarrow> listeners s, st = fst ev \<and> n = name_of (snd ev)]"

text \<open>
  The event loop handles the emitted events until none is left. It terminates: handling
  an event takes it off the queue, and a listener adds one only by destroying a stage
  that can still fail.
\<close>

definition open_stages :: "pipeline \<Rightarrow> nat" where
  "open_stages s = length (filter (can_fail s) [Response, Decompress, Destination, WriteSink])"

definition pending_work :: "pipeline \<Rightarrow> nat" where
  "pending_work s = length (queue s) + 2 * open_stages s"

lemma destroy_work: "pending_work (destroy t e s) \<le> pending_work s"
  by (cases t) (auto simp: pending_work_def open_stages_def destroy_def can_fail_def)

lemma run_handler_work: "pending_work (run_handler sig s h) \<le> pending_work s"
  by (cases sig; cases h)
    (simp_all add: destroy_work, simp_all add: pending_work_def open_stages_def can_fail_def)

lemma emit_work: "pending_work (emit ev s) \<le> pending_work s"
proof -
  have "pending_work (foldl (run_handler sig) s hs) \<le> pending_work s" for sig hs
  proof (induction hs arbitrary: s)
    case Nil
    show ?case by simp
  next
    case (Cons h hs)
    show ?case using Cons [of "run_handler sig s h"] run_handler_work [of sig s h] by simp
  qed
  then show ?thesis by (simp add: emit_def)
qed

function drain :: "pipeline \<Rightarrow> pipeline" where
  "drain s =
     (case queue s of
        [] \<Rightarrow> s
      | ev # rest \<Rightarrow> drain (emit ev (s\<lparr>queue := rest\<rparr>)))"
  by pat_completeness auto
termination
proof (relation "measure pending_work")
  show "wf (measure pending_work)" by simp
next
  fix s :: pipeline and ev rest
  assume q: "queue s = ev # rest"
  have "pending_work (emit ev (s\<lparr>queue := rest\<rparr>)) \<le> pending_work (s\<lparr>queue := rest\<rparr>)"
    by (rule emit_work)
  also have "\<dots> < pending_work s"
    using q by (simp add: pending_work_def open_stages_def can_fail_def)
  finally show "(emit ev (s\<lparr>queue := rest\<rparr>), s) \<in> measure pending_work"
    by simp
qed

declare drain.simps [simp del]

definition deliver :: "string \<Rightarrow> pipeline \<Rightarrow> pipeline" where
  "deliver d s = flow (s\<lparr>backlog := backlog s @ [d]\<rparr>)"

fun dispatch :: "pipeline \<Rightarrow> happening \<Rightarrow> pipeline" where
  "dispatch s (Chunk d) = drain (deliver d s)"
| "dispatch s (Fails st e) = drain (destroy st e s)"
| "dispatch s (Completes st) = drain (complete st s)"

declare dispatch.simps [simp del]

definition dispatch_all :: "happening list \<Rightarrow> pipeline \<Rightarrow> pipeline" where
  "dispatch_all hs s = foldl dispatch s hs"

definition chunks_of :: "happening list \<Rightarrow> string list" where
  "chunks_of hs = concat (map (\<lambda>h. case h of Chunk d \<Rightarrow> [d] | _ \<Rightarrow> []) hs)"

text \<open>
  How a call of an \<^verbatim>\<open>async\<close> function ends, and \<^verbatim>\<open>await\<close> on the promise of the
  pipeline: a promise that never settles leaves the caller waiting for ever.
\<close>

datatype 'a outcome = Resolves 'a | Rejects js_error | Hangs

definition await :: "'a \<Rightarrow> pipeline \<Rightarrow> 'a outcome" where
  "await v s =
     (case promise s of Pending \<Rightarrow> Hangs | Fulfilled _ \<Rightarrow> Resolves v | Rejected e \<Rightarrow> Rejects e)"

section \<open>\<^verbatim>\<open>extractTar\<close>\<close>

text \<open>
  What the outside decides in one call: whether \<^verbatim>\<open>mkdir\<close> fails, what happens while
  the call waits for \<^verbatim>\<open>mkdir\<close>, and what happens while it waits for the extraction.
\<close>

record tar_env =
  mkdir_fault :: "js_error option"
  during_mkdir :: "happening list"
  during_extract :: "happening list"

text \<open>
  The synchronous block after \<^verbatim>\<open>mkdir\<close>:
  \<^verbatim>\<open>
    const decompress = zlib.createGunzip()
    response.pipe(decompress)
    response.on("error", (error) => decompress.destroy(error))
    const destination = tar.extract(downloadPath)
    decompress.pipe(destination)
    decompress.on("error", (error) => destination.destroy(error))
    await new Promise((resolve, reject) => {
      destination.on("error", reject)
      destination.on("finish", resolve)
      response.resume()
    })
  \<close>
\<close>

definition extractTar_wire :: "path \<Rightarrow> pipeline \<Rightarrow> pipeline" where
  "extractTar_wire downloadPath s =
     (let s = create Decompress s;
          s = pipe Response Decompress s;
          s = on Response OnError (DestroyStage Decompress) s;
          s = create Destination s;
          s = pipe Decompress Destination s;
          s = on Decompress OnError (DestroyStage Destination) s;
          s = s\<lparr>promise := Pending\<rparr>;
          s = on Destination OnError RejectPromise s;
          s = on Destination OnFinish ResolvePromise s;
          s = resume s
      in s)"

text \<open>
  The whole call: \<^verbatim>\<open>response.pause()\<close>, \<^verbatim>\<open>await fs.promises.mkdir(downloadPath, {
  recursive: true })\<close>, the block above, and \<^verbatim>\<open>return downloadPath\<close>. The result is how
  the returned promise ends, with the state the call leaves.
\<close>

definition extractTar :: "tar_env \<Rightarrow> path \<Rightarrow> pipeline \<Rightarrow> path outcome \<times> pipeline" where
  "extractTar env downloadPath s0 =
     (let s1 = dispatch_all (during_mkdir env) (pause s0)
      in case mkdir_recursive (mkdir_fault env) downloadPath (files s1) of
           Inl e \<Rightarrow> (Rejects e, s1)
         | Inr files' \<Rightarrow>
             (let s2 = extractTar_wire downloadPath (s1\<lparr>files := files'\<rparr>);
                  s3 = dispatch_all (during_extract env) s2
              in (await downloadPath s3, s3)))"

section \<open>\<^verbatim>\<open>extractZip\<close>\<close>

text \<open>
  What the outside decides in one call: the platform and its temporary directory; whether the
  two \<^verbatim>\<open>mkdir\<close> calls fail; the random part of the name \<^verbatim>\<open>mkdtemp\<close> chooses, or
  its failure; what happens before the sink is wired and while the archive is written;
  the entries \<^verbatim>\<open>unzip\<close> extracts, or its failure; and whether the final removal
  fails.
\<close>

record zip_env =
  platform :: platform
  os_tmpdir :: path
  download_mkdir_fault :: "js_error option"
  staging_mkdir_fault :: "js_error option"
  mkdtemp_result :: "js_error + string"
  during_setup :: "happening list"
  during_write :: "happening list"
  unzip_result :: "js_error + path list"
  rmdir_fault :: "js_error option"

text \<open>
  The synchronous block after the staging directory has been made:
  \<^verbatim>\<open>
    const write = fs.createWriteStream(zipPath)
    response.pipe(write)
    response.on("error", (error) => write.destroy(error))
    await new Promise((resolve, reject) => {
      write.on("error", reject)
      write.on("finish", resolve)
      response.resume()
    })
  \<close>
\<close>

definition extractZip_wire :: "path \<Rightarrow> pipeline \<Rightarrow> pipeline" where
  "extractZip_wire zipPath s =
     (let s = create WriteSink (s\<lparr>files := insert zipPath (files s)\<rparr>);
          s = pipe Response WriteSink s;
          s = on Response OnError (DestroyStage WriteSink) s;
          s = s\<lparr>promise := Pending\<rparr>;
          s = on WriteSink OnError RejectPromise s;
          s = on WriteSink OnFinish ResolvePromise s;
          s = resume s
      in s)"

text \<open>
  The whole call. Each \<^verbatim>\<open>await\<close> whose promise rejects ends the call with that error
  at once: the statements after it do not run.
  \<^verbatim>\<open>
    response.pause()
    await fs.promises.mkdir(downloadPath, { recursive: true })
    const temp = await tmpdir("zip-staging")
    const zipPath = path.join(temp, "archive.zip")
    ... the block above ...
    await unzip(zipPath, { dir: downloadPath })
    await clean("zip-staging")
    return downloadPath
  \<close>
\<close>

definition extractZip :: "zip_env \<Rightarrow> path \<Rightarrow> pipeline \<Rightarrow> path outcome \<times> pipeline" where
  "extractZip env downloadPath s0 =
     (let s1 = dispatch_all (during_setup env) (pause s0)
      in case mkdir_recursive (download_mkdir_fault env) downloadPath (files s1) of
           Inl e \<Rightarrow> (Rejects e, s1)
         | Inr files1 \<Rightarrow>
            (case tmpdir (platform env) (os_tmpdir env) ''zip-staging''
                    (staging_mkdir_fault env) (mkdtemp_result env) files1 of
               (Inl e, files2) \<Rightarrow> (Rejects e, s1\<lparr>files := files2\<rparr>)
             | (Inr temp, files2) \<Rightarrow>
                (let zipPath = path_join (platform env) temp ''archive.zip'';
                     s2 = extractZip_wire zipPath (s1\<lparr>files := files2\<rparr>);
                     s3 = dispatch_all (during_write env) s2
                 in case await () s3 of
                      Hangs \<Rightarrow> (Hangs, s3)
                    | Rejects e \<Rightarrow> (Rejects e, s3)
                    | Resolves _ \<Rightarrow>
                       (case unzip (unzip_result env) zipPath downloadPath (files s3) of
                          Inl e \<Rightarrow> (Rejects e, s3)
                        | Inr files3 \<Rightarrow>
                           (case clean (platform env) (os_tmpdir env) ''zip-staging''
                                   (rmdir_fault env) files3 of
                              Inl e \<Rightarrow> (Rejects e, s3\<lparr>files := files3\<rparr>)
                            | Inr files4 \<Rightarrow> (Resolves downloadPath, s3\<lparr>files := files4\<rparr>))))))"

text \<open>The staging namespace of the zip path, and the directory \<^verbatim>\<open>tmpdir\<close> makes in it.\<close>

definition staging_dir :: "zip_env \<Rightarrow> path" where
  "staging_dir env = os_tmpdir env @ [''coder'', ''zip-staging'']"

text \<open>
  Two runs in which the extraction fails after the staging directory
  \<^verbatim>\<open>/tmp/coder/zip-staging/tmp-Ab12Cd\<close> has been made: the disk fills up while the
  archive is written, and the written archive is not a zip file.
\<close>

definition env_write_error :: zip_env where
  "env_write_error =
     \<lparr>platform = Posix, os_tmpdir = [''tmp''], download_mkdir_fault = None, staging_mkdir_fault = None,
      mkdtemp_result = Inr ''Ab12Cd'', during_setup = [],
      during_write = [Chunk ''PK'', Fails WriteSink (JsError ''ENOSPC'')],
      unzip_result = Inr [], rmdir_fault = None\<rparr>"

definition env_unzip_error :: zip_env where
  "env_unzip_error =
     \<lparr>platform = Posix, os_tmpdir = [''tmp''], download_mkdir_fault = None, staging_mkdir_fault = None,
      mkdtemp_result = Inr ''Ab12Cd'', during_setup = [],
      during_write = [Chunk ''not a zip'', Completes WriteSink],
      unzip_result = Inl (JsError ''end of central directory record signature not found''),
      rmdir_fault = None\<rparr>"

text \<open>
  The listeners and the state of a wired pipeline between two events, and the state of a
  call before it has wired anything: the invariants of the two phases of a call.
\<close>

definition tar_listeners :: "(stage \<times> evname \<times> handler) list" where
  "tar_listeners =
     [(Response, OnError, DestroyStage Decompress),
      (Decompress, OnError, DestroyStage Destination),
      (Destination, OnError, RejectPromise),
      (Destination, OnFinish, ResolvePromise)]"

definition tar_wired :: "pipeline \<Rightarrow> bool" where
  "tar_wired s \<longleftrightarrow>
     listeners s = tar_listeners \<and> queue s = [] \<and>
     pipes s = [(Response, Decompress), (Decompress, Destination)] \<and> flowing s \<and>
     backlog s = [] \<and> dropped s = [] \<and>
     state_of s Decompress \<noteq> Absent \<and>
     (can_fail s Decompress \<or> state_of s Destination \<noteq> Live) \<and>
     promise s = (case state_of s Destination of
                    Absent \<Rightarrow> Fulfilled () | Live \<Rightarrow> Pending | Finished \<Rightarrow> Fulfilled ()
                  | Destroyed e \<Rightarrow> Rejected e) \<and>
     state_of s Destination \<noteq> Absent"

definition zip_listeners :: "(stage \<times> evname \<times> handler) list" where
  "zip_listeners =
     [(Response, OnError, DestroyStage WriteSink),
      (WriteSink, OnError, RejectPromise),
      (WriteSink, OnFinish, ResolvePromise)]"

definition zip_wired :: "pipeline \<Rightarrow> bool" where
  "zip_wired s \<longleftrightarrow>
     listeners s = zip_listeners \<and> queue s = [] \<and> pipes s = [(Response, WriteSink)] \<and>
     flowing s \<and> backlog s = [] \<and> dropped s = [] \<and>
     promise s = (case state_of s WriteSink of
                    Absent \<Rightarrow> Fulfilled () | Live \<Rightarrow> Pending | Finished \<Rightarrow> Fulfilled ()
                  | Destroyed e \<Rightarrow> Rejected e) \<and>
     state_of s WriteSink \<noteq> Absent"

definition unwired :: "pipeline \<Rightarrow> bool" where
  "unwired s \<longleftrightarrow>
     listeners s = [] \<and> queue s = [] \<and> pipes s = [] \<and> \<not> flowing s \<and>
     received s = [] \<and> dropped s = [] \<and> promise s = Pending \<and>
     state_of s Decompress = Absent \<and> state_of s Destination = Absent \<and>
     state_of s WriteSink = Absent"

section \<open>Properties of the line splitter\<close>

lemma split_on_nonempty: "split_on c xs \<noteq> []"
  by (induction xs) auto

lemma split_on_append:
  "split_on c (xs @ ys) =
     butlast (split_on c xs) @ split_on c (last (split_on c xs) @ ys)"
proof (induction xs)
  case Nil
  show ?case by simp
next
  case (Cons x xs)
  obtain h t where S: "split_on c xs = h # t"
    using split_on_nonempty [of c xs] by (cases "split_on c xs") auto
  show ?case
  proof (cases "x = c")
    case True
    with Cons S show ?thesis by simp
  next
    case False
    show ?thesis
    proof (cases t)
      case Nil
      with Cons S False show ?thesis by simp
    next
      case (Cons t1 ts)
      with Cons.IH S False show ?thesis by simp
    qed
  qed
qed

lemma split_on_no_sep: "c \<notin> set xs \<Longrightarrow> split_on c xs = [xs]"
  by (induction xs) auto

lemma split_on_lines_no_sep: "l \<in> set (split_on c xs) \<Longrightarrow> c \<notin> set l"
proof (induction xs arbitrary: l)
  case Nil
  then show ?case by simp
next
  case (Cons x xs)
  obtain h t where S: "split_on c xs = h # t"
    using split_on_nonempty [of c xs] by (cases "split_on c xs") auto
  have "c \<notin> set h" and "\<And>m. m \<in> set t \<Longrightarrow> c \<notin> set m"
    using Cons.IH S by auto
  with Cons.prems S show ?case by (auto split: if_splits)
qed

lemma join_with_split_on: "join_with c (split_on c xs) = xs"
proof (induction xs)
  case Nil
  show ?case by simp
next
  case (Cons x xs)
  obtain h t where S: "split_on c xs = h # t"
    using split_on_nonempty [of c xs] by (cases "split_on c xs") auto
  with Cons show ?case by (cases t) auto
qed

lemma length_split_on: "length (split_on c xs) = Suc (count_list xs c)"
proof (induction xs)
  case Nil
  show ?case by simp
next
  case (Cons x xs)
  have "split_on c xs \<noteq> []" by (rule split_on_nonempty)
  with Cons show ?case by (cases "split_on c xs") auto
qed

lemma map_nth_butlast: "map (\<lambda>i. xs ! i) [0..<length xs - 1] = butlast xs"
  by (rule nth_equalityI) (simp_all add: nth_butlast)

lemma on_data_calls: "calls (on_data d s) = calls s @ butlast (split_on newline (buffer s @ d))"
  using map_nth_butlast [of "split_on newline (buffer s @ d)"]
  by (simp add: on_data_def Let_def)

lemma on_data_buffer: "buffer (on_data d s) = last (split_on newline (buffer s @ d))"
  by (simp add: on_data_def Let_def last_conv_nth split_on_nonempty)

lemma feed_Nil: "feed [] s = s"
  by (simp add: feed_def)

lemma feed_Cons: "feed (d # ds) s = feed ds (on_data d s)"
  by (simp add: feed_def)

lemma on_data_buffer_no_newline: "newline \<notin> set (buffer (on_data d s))"
  unfolding on_data_buffer
  by (rule split_on_lines_no_sep [of _ newline "buffer s @ d"]) (simp add: split_on_nonempty)

lemma feed_split:
  "newline \<notin> set (buffer s) \<Longrightarrow>
   calls (feed chunks s) @ [buffer (feed chunks s)] =
     calls s @ split_on newline (buffer s @ concat chunks)"
proof (induction chunks arbitrary: s)
  case Nil
  then show ?case by (simp add: feed_Nil split_on_no_sep)
next
  case (Cons d ds)
  have "calls (feed (d # ds) s) @ [buffer (feed (d # ds) s)] =
        calls (on_data d s) @ split_on newline (buffer (on_data d s) @ concat ds)"
    using Cons.IH [OF on_data_buffer_no_newline] by (simp add: feed_Cons)
  also have "\<dots> = calls s @ split_on newline ((buffer s @ d) @ concat ds)"
    unfolding split_on_append [of newline "buffer s @ d" "concat ds"]
    by (simp add: on_data_calls on_data_buffer)
  finally show ?case by simp
qed

lemma onLine_stream_of: "onLine (stream_of chunks) = calls (on_end (feed chunks splitter_init))"
proof -
  have "foldl handle_event s (map Data chunks) = feed chunks s" for s
    by (induction chunks arbitrary: s) (simp_all add: feed_Nil feed_Cons)
  then show ?thesis by (simp add: onLine_def stream_of_def)
qed

lemma onLine_split: "onLine (stream_of chunks) = split_on newline (concat chunks)"
  using feed_split [of splitter_init chunks]
  by (simp add: onLine_stream_of on_end_def splitter_init_def)

lemma split_on_prefix_no_sep:
  "c \<notin> set l \<Longrightarrow> split_on c (l @ ys) = (l @ hd (split_on c ys)) # tl (split_on c ys)"
  by (induction l) (auto simp: split_on_nonempty)

lemma last_split_on: "last (split_on c xs) = rev (takeWhile (\<lambda>x. x \<noteq> c) (rev xs))"
proof (induction xs rule: rev_induct)
  case Nil
  show ?case by simp
next
  case (snoc x xs)
  let ?l = "last (split_on c xs)"
  have "c \<notin> set ?l"
    by (rule split_on_lines_no_sep [of _ c xs]) (simp add: split_on_nonempty)
  then have "split_on c (?l @ [x]) = (?l @ hd (split_on c [x])) # tl (split_on c [x])"
    by (rule split_on_prefix_no_sep)
  then have "last (split_on c (xs @ [x])) = (if x = c then [] else ?l @ [x])"
    unfolding split_on_append [of c xs "[x]"] by (simp add: split_on_nonempty)
  with snoc show ?case by simp
qed

lemma feed_init_split:
  "calls (feed chunks splitter_init) @ [buffer (feed chunks splitter_init)] =
     split_on newline (concat chunks)"
  using feed_split [of splitter_init chunks] by (simp add: splitter_init_def)

lemma feed_calls: "calls (feed chunks splitter_init) = butlast (split_on newline (concat chunks))"
  using feed_init_split [of chunks] by (metis butlast_snoc)

lemma feed_buffer: "buffer (feed chunks splitter_init) = last (split_on newline (concat chunks))"
  using feed_init_split [of chunks] by (metis last_snoc)

section \<open>Claims about the line splitter\<close>

text \<open>
  C1. Chunking invariance: two streams with the same content, cut into chunks in any two
  ways, deliver the same sequence of lines to the callback.
\<close>

theorem onLine_chunking_invariant:
  "concat chunks = concat chunks' \<Longrightarrow> onLine (stream_of chunks) = onLine (stream_of chunks')"
  by (simp add: onLine_split)

theorem onLine_chunking_invariant_witness:
  "concat [''ab\<newline>c'', ''d\<newline>e''] = concat [''a'', ''b\<newline>cd'', [], ''\<newline>'', ''e''] \<and>
   onLine (stream_of [''ab\<newline>c'', ''d\<newline>e'']) =
     onLine (stream_of [''a'', ''b\<newline>cd'', [], ''\<newline>'', ''e''])"
proof
  show c: "concat [''ab\<newline>c'', ''d\<newline>e''] = concat [''a'', ''b\<newline>cd'', [], ''\<newline>'', ''e'']"
    by simp
  show "onLine (stream_of [''ab\<newline>c'', ''d\<newline>e'']) =
     onLine (stream_of [''a'', ''b\<newline>cd'', [], ''\<newline>'', ''e''])"
    by (rule onLine_chunking_invariant [OF c])
qed

text \<open>
  C4. When the stream ends, the callback is invoked exactly once more, with the contents
  of the accumulator: the calls of a whole stream are those of its \<^verbatim>\<open>data\<close> events
  followed by that single flush. A stream with no bytes gives one call with the empty
  string. A stream whose content does not end in a newline gives its final partial
  segment as the last call; the \<^verbatim>\<open>data\<close> listeners made one call per newline of the
  content, so that segment was not delivered before.
\<close>

theorem onLine_end_flush:
  "calls (on_end s) = calls s @ [buffer s] \<and>
   onLine (stream_of chunks) =
     calls (feed chunks splitter_init) @ [buffer (feed chunks splitter_init)] \<and>
   onLine (stream_of []) = [[]] \<and>
   (concat chunks = [] \<longrightarrow> onLine (stream_of chunks) = [[]]) \<and>
   (concat chunks \<noteq> [] \<and> last (concat chunks) \<noteq> newline \<longrightarrow>
      final_segment (concat chunks) \<noteq> [] \<and>
      buffer (feed chunks splitter_init) = final_segment (concat chunks) \<and>
      length (calls (feed chunks splitter_init)) = count_list (concat chunks) newline \<and>
      onLine (stream_of chunks) =
        calls (feed chunks splitter_init) @ [final_segment (concat chunks)])"
proof -
  have flush: "calls (on_end s) = calls s @ [buffer s]"
    by (simp add: on_end_def)
  have run: "onLine (stream_of chunks) =
     calls (feed chunks splitter_init) @ [buffer (feed chunks splitter_init)]"
    by (simp add: onLine_stream_of on_end_def)
  have none: "onLine (stream_of []) = [[]]"
    by (simp add: onLine_split)
  have empty: "concat chunks = [] \<longrightarrow> onLine (stream_of chunks) = [[]]"
  proof
    assume e: "concat chunks = []"
    show "onLine (stream_of chunks) = [[]]"
      unfolding onLine_split e by simp
  qed
  have buf: "buffer (feed chunks splitter_init) = final_segment (concat chunks)"
    by (simp add: feed_buffer last_split_on final_segment_def)
  have len: "length (calls (feed chunks splitter_init)) = count_list (concat chunks) newline"
    by (simp add: feed_calls length_split_on)
  have seg: "final_segment (concat chunks) \<noteq> []"
    if "concat chunks \<noteq> []" "last (concat chunks) \<noteq> newline"
    using that by (cases "concat chunks" rule: rev_cases) (simp_all add: final_segment_def)
  from flush run none empty buf len seg show ?thesis
    by simp
qed

theorem onLine_end_flush_witness:
  "calls (on_end \<lparr>buffer = ''xy'', calls = [''a'']\<rparr>) = [''a'', ''xy''] \<and>
   onLine (stream_of []) = [[]] \<and>
   onLine (stream_of [[], []]) = [[]] \<and>
   final_segment (concat [''a\<newline>b'', ''c'']) = ''bc'' \<and>
   buffer (feed [''a\<newline>b'', ''c''] splitter_init) = ''bc'' \<and>
   length (calls (feed [''a\<newline>b'', ''c''] splitter_init)) = 1 \<and>
   onLine (stream_of [''a\<newline>b'', ''c'']) = [''a'', ''bc'']"
proof -
  let ?s = "\<lparr>buffer = ''xy'', calls = [''a'']\<rparr>"
  let ?cs = "[''a\<newline>b'', ''c'']"
  note E = onLine_end_flush [of ?s "[[], []]"]
  note P = onLine_end_flush [of ?s ?cs]
  have c0: "concat [[], []] = ([] :: string)"
    by simp
  have c1: "concat ?cs \<noteq> [] \<and> last (concat ?cs) \<noteq> newline"
    by (simp add: newline_def)
  have fs: "final_segment (concat ?cs) = ''bc''"
    by (simp add: final_segment_def newline_def)
  have cnt: "count_list (concat ?cs) newline = 1"
    by (simp add: newline_def)
  have cl: "calls (feed ?cs splitter_init) = [''a'']"
    by (simp add: feed_calls newline_def)
  have 1: "calls (on_end ?s) = [''a'', ''xy'']"
    using E by simp
  have 2: "onLine (stream_of []) = [[]]"
    using E by blast
  have 3: "onLine (stream_of [[], []]) = [[]]"
    using E c0 by blast
  have 5: "buffer (feed ?cs splitter_init) = ''bc''"
    using P c1 fs by metis
  have 6: "length (calls (feed ?cs splitter_init)) = 1"
    using P c1 cnt by metis
  have 7: "onLine (stream_of ?cs) = [''a'', ''bc'']"
    using P c1 fs cl by (metis append_Cons append_Nil)
  from 1 2 3 fs 5 6 7 show ?thesis
    by blast
qed

text \<open>
  C5. For the content \<^verbatim>\<open>"a\nb\nc\n"\<close> the callback does not receive exactly
  \<^verbatim>\<open>["a","b","c"]\<close>: the \<^verbatim>\<open>end\<close> listener flushes the empty remainder, so a fourth
  call with the empty string follows. Under every chunking of that content the calls are
  \<^verbatim>\<open>["a","b","c",""]\<close>, in that order.
\<close>

theorem onLine_abc_not_three_lines:
  "onLine (stream_of [''a\<newline>b\<newline>c\<newline>'']) \<noteq> [''a'', ''b'', ''c'']"
  by (simp add: onLine_split newline_def)

text \<open>
  C5, as the code has it: whatever the chunks, a stream with the content
  \<^verbatim>\<open>"a\nb\nc\n"\<close> gives the four calls \<^verbatim>\<open>"a"\<close>, \<^verbatim>\<open>"b"\<close>, \<^verbatim>\<open>"c"\<close> and
  \<^verbatim>\<open>""\<close>, in that order.
\<close>

theorem onLine_abc_four_calls:
  "concat chunks = ''a\<newline>b\<newline>c\<newline>'' \<Longrightarrow>
   onLine (stream_of chunks) = [''a'', ''b'', ''c'', []]"
  by (simp add: onLine_split newline_def)

theorem onLine_abc_four_calls_witness:
  "concat [''a\<newline>'', ''b\<newline>c'', ''\<newline>''] = ''a\<newline>b\<newline>c\<newline>'' \<and>
   onLine (stream_of [''a\<newline>'', ''b\<newline>c'', ''\<newline>'']) = [''a'', ''b'', ''c'', []]"
proof
  show c: "concat [''a\<newline>'', ''b\<newline>c'', ''\<newline>''] = ''a\<newline>b\<newline>c\<newline>''"
    by simp
  show "onLine (stream_of [''a\<newline>'', ''b\<newline>c'', ''\<newline>'']) = [''a'', ''b'', ''c'', []]"
    by (rule onLine_abc_four_calls [OF c])
qed

text \<open>
  C10. Round trip: the strings delivered to the callback, joined with newlines, are the
  content of the stream (the concatenation of its chunks), and none of them contains a
  newline.
\<close>

theorem onLine_roundtrip:
  "join_with newline (onLine (stream_of chunks)) = concat chunks \<and>
   (\<forall>l \<in> set (onLine (stream_of chunks)). newline \<notin> set l)"
  by (auto simp: onLine_split join_with_split_on dest: split_on_lines_no_sep)

theorem onLine_roundtrip_witness:
  "join_with newline (onLine (stream_of [''a\<newline>b'', ''c\<newline>''])) = ''a\<newline>bc\<newline>'' \<and>
   onLine (stream_of [''a\<newline>b'', ''c\<newline>'']) = [''a'', ''bc'', []] \<and>
   newline \<notin> set ''a'' \<and> newline \<notin> set ''bc''"
proof -
  let ?cs = "[''a\<newline>b'', ''c\<newline>'']"
  note R = onLine_roundtrip [of ?cs]
  have eq: "onLine (stream_of ?cs) = [''a'', ''bc'', []]"
    by (simp add: onLine_split newline_def)
  have j: "join_with newline (onLine (stream_of ?cs)) = ''a\<newline>bc\<newline>''"
    using R by simp
  have all: "\<forall>l \<in> set (onLine (stream_of ?cs)). newline \<notin> set l"
    using R by (rule conjunct2)
  have a: "newline \<notin> set ''a''"
    using all unfolding eq by simp
  have b: "newline \<notin> set ''bc''"
    using all unfolding eq by simp
  from eq j a b show ?thesis
    by blast
qed

section \<open>Properties of \<^verbatim>\<open>wrapExit\<close>\<close>

lemma wrapExit_listener_settled: "p \<noteq> Pending \<Longrightarrow> wrapExit_listener sf p ev = p"
  by (cases ev; cases p) (simp_all add: resolve_def reject_def)

lemma settled_stays: "p \<noteq> Pending \<Longrightarrow> foldl (wrapExit_listener sf) p evs = p"
  by (induction evs) (simp_all add: wrapExit_listener_settled)

lemma wrapExit_Cons: "wrapExit sf (ev # evs) = wrapExit_listener sf Pending ev"
  unfolding wrapExit_def
  by (cases ev) (simp_all add: settled_stays resolve_def reject_def)

lemma digit_value_digit: "d < 10 \<Longrightarrow> digit_value (''0123456789'' ! d) = d"
proof -
  assume "d < 10"
  then consider "d = 0" | "d = 1" | "d = 2" | "d = 3" | "d = 4" | "d = 5" | "d = 6"
    | "d = 7" | "d = 8" | "d = 9"
    by atomize_elim arith
  then show ?thesis
    by cases (simp_all add: digit_value_def)
qed

lemma read_nat_show_nat: "read_nat (show_nat n) = n"
proof (induction n rule: show_nat.induct)
  case (1 n)
  show ?case
  proof (cases "n < 10")
    case True
    then show ?thesis
      by (subst show_nat.simps) (simp add: read_nat_def digit_value_digit)
  next
    case False
    with 1 have "read_nat (show_nat (n div 10)) = n div 10" by simp
    with False show ?thesis
      by (subst show_nat.simps) (simp add: read_nat_def digit_value_digit)
  qed
qed

lemma show_nat_digits: "set (show_nat n) \<subseteq> set ''0123456789''"
proof (induction n rule: show_nat.induct)
  case (1 n)
  have d: "''0123456789'' ! k \<in> set ''0123456789''" if "k < 10" for k
    using that by (intro nth_mem) simp
  show ?case
  proof (cases "n < 10")
    case True
    then show ?thesis
      using d [of n] by (subst show_nat.simps) auto
  next
    case False
    with 1 have "set (show_nat (n div 10)) \<subseteq> set ''0123456789''" by simp
    with False show ?thesis
      using d [of "n mod 10"] by (subst show_nat.simps) auto
  qed
qed

lemma show_code_inj: "show_code c = show_code c' \<Longrightarrow> c = c'"
proof -
  have nn: "show_nat n \<noteq> ''null''" for n
  proof
    assume "show_nat n = ''null''"
    then have "CHR ''n'' \<in> set (show_nat n)" by simp
    with show_nat_digits [of n] show False by auto
  qed
  assume "show_code c = show_code c'"
  then show ?thesis
    using nn
    by (cases c; cases c') (auto simp: show_code_def dest: arg_cong [where f = read_nat] simp: read_nat_show_nat)
qed

lemma exit_error_inj: "exit_error sf c = exit_error sf c' \<Longrightarrow> c = c'"
  by (simp add: exit_error_def show_code_inj)

text \<open>
  C9. The promise of \<^verbatim>\<open>wrapExit\<close> does not resolve whenever the process emits an exit
  event with code 0: when an \<^verbatim>\<open>error\<close> event came first, the promise has already
  rejected with that error, and the later exit with code 0 changes nothing.
\<close>

theorem wrapExit_exit_zero_after_error:
  "ProcExit (Some 0) \<in> set [ProcError (JsError ''kill EPERM''), ProcExit (Some 0)] \<and>
   wrapExit ''git'' [ProcError (JsError ''kill EPERM''), ProcExit (Some 0)] =
     Rejected (JsError ''kill EPERM'') \<and>
   wrapExit ''git'' [ProcError (JsError ''kill EPERM''), ProcExit (Some 0)] \<noteq> Fulfilled ()"
  by (simp add: wrapExit_def reject_def resolve_def)

text \<open>
  C9, as the code has it. The promise settles on the first \<^verbatim>\<open>error\<close> or \<^verbatim>\<open>exit\<close>
  event of the process, once: it resolves exactly when that first event is an exit with
  code 0; a first exit with another code (or none) rejects with an error whose message
  names the command and that code, and the code can be read back from the message; a
  first \<^verbatim>\<open>error\<close> event rejects with the error of the event. With no event the promise
  stays pending.
\<close>

theorem wrapExit_first_event:
  "wrapExit sf [] = Pending \<and>
   wrapExit sf (ProcExit (Some 0) # rest) = Fulfilled () \<and>
   (code \<noteq> Some 0 \<longrightarrow>
      wrapExit sf (ProcExit code # rest) =
        Rejected (JsError (''Command '' @ [CHR 0x22] @ sf @ [CHR 0x22] @
                           '' failed with code '' @ show_code code))) \<and>
   (show_code code = show_code code' \<longrightarrow> code = code') \<and>
   wrapExit sf (ProcError e # rest) = Rejected e \<and>
   (wrapExit sf evs = Fulfilled () \<longleftrightarrow> (\<exists>rest'. evs = ProcExit (Some 0) # rest'))"
proof -
  have iff: "wrapExit sf evs = Fulfilled () \<longleftrightarrow> (\<exists>rest'. evs = ProcExit (Some 0) # rest')"
  proof (cases evs)
    case Nil
    then show ?thesis by (simp add: wrapExit_def)
  next
    case (Cons ev rest')
    then show ?thesis
      by (cases ev) (auto simp: wrapExit_Cons resolve_def reject_def)
  qed
  have inj: "show_code code = show_code code' \<longrightarrow> code = code'"
    by (auto dest: show_code_inj)
  have nil: "wrapExit sf [] = Pending"
    by (simp add: wrapExit_def)
  from iff inj nil show ?thesis
    by (simp add: wrapExit_Cons resolve_def reject_def exit_error_def)
qed

theorem wrapExit_first_event_witness:
  "wrapExit ''git'' [ProcExit (Some 0)] = Fulfilled () \<and>
   Some 128 \<noteq> Some (0::nat) \<and>
   wrapExit ''git'' [ProcExit (Some 128), ProcExit (Some 0)] =
     Rejected (JsError (''Command '' @ [CHR 0x22] @ ''git'' @ [CHR 0x22] @
                        '' failed with code 128'')) \<and>
   wrapExit ''git'' [ProcError (JsError ''spawn git ENOENT'')] =
     Rejected (JsError ''spawn git ENOENT'')"
proof -
  note A = wrapExit_first_event [of "''git''" "[]" "Some 128" "Some 128"
      "JsError ''spawn git ENOENT''" "[]"]
  note B = wrapExit_first_event [of "''git''" "[ProcExit (Some 0)]" "Some 128" "Some 128"
      "JsError ''spawn git ENOENT''" "[]"]
  have s: "show_code (Some 128) = ''128''"
    unfolding show_code_def option.case
    by (subst show_nat.simps, simp, subst show_nat.simps, simp, subst show_nat.simps, simp)
  have n: "Some 128 \<noteq> Some (0::nat)"
    by simp
  have 1: "wrapExit ''git'' [ProcExit (Some 0)] = Fulfilled ()"
    using A by simp
  have 2: "wrapExit ''git'' [ProcExit (Some 128), ProcExit (Some 0)] =
     Rejected (JsError (''Command '' @ [CHR 0x22] @ ''git'' @ [CHR 0x22] @
                        '' failed with code '' @ show_code (Some 128)))"
    using B n by simp
  have 3: "wrapExit ''git'' [ProcError (JsError ''spawn git ENOENT'')] =
     Rejected (JsError ''spawn git ENOENT'')"
    using A by simp
  from 1 2 3 n show ?thesis
    unfolding s by simp
qed

section \<open>Properties of \<^verbatim>\<open>path.join\<close> and \<^verbatim>\<open>clean\<close>\<close>

lemma segments_nonempty: "segments sep xs \<noteq> []"
  by (induction xs) (auto split: list.splits)

lemma segments_plain: "\<forall>c \<in> set l. \<not> sep c \<Longrightarrow> segments sep l = [l]"
  by (induction l) auto

lemma path_join_coder_plain:
  assumes "\<forall>c \<in> set name. \<not> is_separator pf c" and "name \<notin> {[], ''.'', ''..''}"
  shows "path_join pf os_tmp (''coder/'' @ name) = os_tmp @ [''coder'', name]"
proof -
  have n: "segments (is_separator pf) name = [name]"
    using assms(1) by (rule segments_plain)
  have s: "is_separator pf CHR ''/''"
    and c: "\<not> is_separator pf CHR ''c''" "\<not> is_separator pf CHR ''o''"
      "\<not> is_separator pf CHR ''d''" "\<not> is_separator pf CHR ''e''" "\<not> is_separator pf CHR ''r''"
    by (cases pf; simp)+
  have "segments (is_separator pf) (''coder/'' @ name) = [''coder'', name]"
    by (simp add: n s c)
  with assms(2) show ?thesis
    by (simp add: path_join_def)
qed

lemma path_join_staging:
  "path_join pf base ''coder/zip-staging'' = base @ [''coder'', ''zip-staging'']"
  using path_join_coder_plain [of "''zip-staging''" pf base]
  by (cases pf) simp_all

lemma path_join_tmp: "path_join pf dir ''tmp-'' = dir @ [''tmp-'']"
  by (cases pf) (simp_all add: path_join_def)

lemma path_join_archive: "path_join pf dir ''archive.zip'' = dir @ [''archive.zip'']"
  by (cases pf) (simp_all add: path_join_def)

text \<open>
  C8. For every name, \<^verbatim>\<open>clean\<close> removes every path at or below the directory that
  \<^verbatim>\<open>path.join\<close> makes of the system's temporary directory and \<^verbatim>\<open>coder/<name>\<close>, and
  resolves, barring a fault of the file system. When no such path exists it still
  resolves, and it leaves the file system as it was; so cleaning twice is the same as
  cleaning once. For a name that is one plain component the directory is
  \<^verbatim>\<open><system-tmp>/coder/<name>\<close>, component by component.
\<close>

theorem clean_absent_succeeds:
  "clean pf os_tmp name None fs =
     Inr {q \<in> fs. \<not> prefix (path_join pf os_tmp (''coder/'' @ name)) q} \<and>
   ((\<forall>q \<in> fs. \<not> prefix (path_join pf os_tmp (''coder/'' @ name)) q) \<longrightarrow>
      clean pf os_tmp name None fs = Inr fs) \<and>
   (clean pf os_tmp name None fs = Inr fs' \<longrightarrow> clean pf os_tmp name None fs' = Inr fs') \<and>
   ((\<forall>c \<in> set name. \<not> is_separator pf c) \<and> name \<notin> {[], ''.'', ''..''} \<longrightarrow>
      path_join pf os_tmp (''coder/'' @ name) = os_tmp @ [''coder'', name])"
proof -
  have "(\<forall>c \<in> set name. \<not> is_separator pf c) \<and> name \<notin> {[], ''.'', ''..''} \<longrightarrow>
      path_join pf os_tmp (''coder/'' @ name) = os_tmp @ [''coder'', name]"
    using path_join_coder_plain [of name pf os_tmp] by blast
  then show ?thesis
    by (auto simp: clean_def rmdir_recursive_def)
qed

theorem clean_absent_succeeds_witness:
  "clean Posix [''tmp''] ''zip-staging'' None {[''tmp''], [''tmp'', ''coder'']} =
     Inr {[''tmp''], [''tmp'', ''coder'']} \<and>
   path_join Posix [''tmp''] ''coder/zip-staging'' = [''tmp'', ''coder'', ''zip-staging''] \<and>
   clean Posix [''tmp''] ''zip-staging'' None
     {[''tmp''], [''tmp'', ''coder'', ''zip-staging'', ''tmp-Ab12Cd'']} = Inr {[''tmp'']} \<and>
   path_join Posix [''tmp''] ''coder/a/..'' = [''tmp'', ''coder''] \<and>
   clean Posix [''tmp''] ''a/..'' None
     {[''tmp''], [''tmp'', ''coder''], [''tmp'', ''coder'', ''other'', ''file'']} = Inr {[''tmp'']}"
proof -
  let ?fs1 = "{[''tmp''], [''tmp'', ''coder'']}"
  let ?fs2 = "{[''tmp''], [''tmp'', ''coder'', ''zip-staging'', ''tmp-Ab12Cd'']}"
  let ?fs3 = "{[''tmp''], [''tmp'', ''coder''], [''tmp'', ''coder'', ''other'', ''file'']}"
  have j1: "path_join Posix [''tmp''] (''coder/'' @ ''zip-staging'') = [''tmp'', ''coder'', ''zip-staging'']"
    by (simp add: path_join_def)
  have j2: "path_join Posix [''tmp''] (''coder/'' @ ''a/..'') = [''tmp'', ''coder'']"
    by (simp add: path_join_def)
  have a: "\<forall>q \<in> ?fs1. \<not> prefix (path_join Posix [''tmp''] (''coder/'' @ ''zip-staging'')) q"
    unfolding j1 by simp
  have 1: "clean Posix [''tmp''] ''zip-staging'' None ?fs1 = Inr ?fs1"
    using clean_absent_succeeds [of Posix "[''tmp'']" "''zip-staging''" ?fs1] a
    by blast
  have "{q \<in> ?fs2. \<not> prefix (path_join Posix [''tmp''] (''coder/'' @ ''zip-staging'')) q} = {[''tmp'']}"
    unfolding j1 by auto
  then have 2: "clean Posix [''tmp''] ''zip-staging'' None ?fs2 = Inr {[''tmp'']}"
    using clean_absent_succeeds [of Posix "[''tmp'']" "''zip-staging''" ?fs2]
    by simp
  have "{q \<in> ?fs3. \<not> prefix (path_join Posix [''tmp''] (''coder/'' @ ''a/..'')) q} = {[''tmp'']}"
    unfolding j2 by auto
  then have 3: "clean Posix [''tmp''] ''a/..'' None ?fs3 = Inr {[''tmp'']}"
    using clean_absent_succeeds [of Posix "[''tmp'']" "''a/..''" ?fs3]
    by simp
  from 1 2 3 j1 j2 show ?thesis by simp
qed

section \<open>Properties of the event loop\<close>

lemma drain_Nil: "queue s = [] \<Longrightarrow> drain s = s"
  by (subst drain.simps) simp

lemma drain_Cons: "queue s = ev # rest \<Longrightarrow> drain s = drain (emit ev (s\<lparr>queue := rest\<rparr>))"
  by (subst drain.simps) simp

lemma queue_drain: "queue (drain s) = []"
  by (induction s rule: drain.induct) (subst drain.simps, simp split: list.splits)

lemma chunks_of_snoc: "chunks_of (hs @ [h]) = chunks_of hs @ chunks_of [h]"
  by (simp add: chunks_of_def)

lemma unwired_files_update: "unwired (s\<lparr>files := f\<rparr>) = unwired s"
  by (simp add: unwired_def)

lemma unwired_pause_initial: "unwired (pause (initial fs0 fl))"
  by (simp add: unwired_def pause_def initial_def)

lemma unwired_dispatch:
  assumes "unwired s"
  shows "unwired (dispatch s h) \<and> files (dispatch s h) = files s \<and>
         backlog (dispatch s h) = backlog s @ chunks_of [h]"
proof (cases h)
  case (Chunk d)
  with assms show ?thesis
    by (simp add: dispatch.simps unwired_def deliver_def flow_def drain_Nil chunks_of_def)
next
  case (Fails st e)
  with assms show ?thesis
    by (simp add: dispatch.simps unwired_def destroy_def can_fail_def drain_Nil drain_Cons
        emit_def chunks_of_def)
next
  case (Completes st)
  with assms show ?thesis
    by (simp add: dispatch.simps unwired_def complete_def drain_Nil drain_Cons emit_def chunks_of_def)
qed

lemma unwired_dispatch_all:
  "unwired s \<Longrightarrow>
   unwired (dispatch_all hs s) \<and> files (dispatch_all hs s) = files s \<and>
   backlog (dispatch_all hs s) = backlog s @ chunks_of hs"
proof (induction hs rule: rev_induct)
  case Nil
  then show ?case by (simp add: dispatch_all_def chunks_of_def)
next
  case (snoc h hs)
  then show ?case
    using unwired_dispatch [of "dispatch_all hs s" h]
    by (simp add: dispatch_all_def chunks_of_snoc)
qed

section \<open>Properties of \<^verbatim>\<open>extractTar\<close>\<close>

text \<open>What each happening does to a wired tar pipeline.\<close>

lemma tar_chunk:
  "tar_wired s \<Longrightarrow> dispatch s (Chunk d) = s\<lparr>received := received s @ [(Decompress, d)]\<rparr>"
  by (simp add: dispatch.simps tar_wired_def deliver_def flow_def drain_Nil)

lemma tar_fails_ended:
  "tar_wired s \<Longrightarrow> \<not> can_fail s st \<Longrightarrow> dispatch s (Fails st e) = s"
  by (simp add: dispatch.simps tar_wired_def destroy_def drain_Nil)

lemma tar_completes_not_live:
  "tar_wired s \<Longrightarrow> state_of s st \<noteq> Live \<Longrightarrow> dispatch s (Completes st) = s"
  by (simp add: dispatch.simps tar_wired_def complete_def drain_Nil)

lemma tar_fails_destination:
  "tar_wired s \<Longrightarrow> state_of s Destination = Live \<Longrightarrow>
   dispatch s (Fails Destination e) =
     s\<lparr>state_of := (state_of s)(Destination := Destroyed e), promise := Rejected e\<rparr>"
  by (simp add: dispatch.simps tar_wired_def tar_listeners_def destroy_def can_fail_def
      drain_Nil drain_Cons emit_def reject_def)

lemma tar_completes_destination:
  "tar_wired s \<Longrightarrow> state_of s Destination = Live \<Longrightarrow>
   dispatch s (Completes Destination) =
     s\<lparr>state_of := (state_of s)(Destination := Finished), promise := Fulfilled ()\<rparr>"
  by (simp add: dispatch.simps tar_wired_def tar_listeners_def complete_def drain_Nil drain_Cons emit_def resolve_def)

lemma tar_fails_decompress:
  "tar_wired s \<Longrightarrow> can_fail s Decompress \<Longrightarrow>
   dispatch s (Fails Decompress e) =
     (if state_of s Destination = Live
      then s\<lparr>state_of := (state_of s)(Decompress := Destroyed e, Destination := Destroyed e),
             promise := Rejected e\<rparr>
      else s\<lparr>state_of := (state_of s)(Decompress := Destroyed e)\<rparr>)"
  by (auto simp: dispatch.simps tar_wired_def tar_listeners_def destroy_def can_fail_def
      drain_Nil drain_Cons emit_def reject_def)

lemma tar_fails_response:
  "tar_wired s \<Longrightarrow> state_of s Response = Live \<Longrightarrow>
   dispatch s (Fails Response e) =
     (if can_fail s Decompress then
        (if state_of s Destination = Live
         then s\<lparr>state_of := (state_of s)(Response := Destroyed e, Decompress := Destroyed e,
                                         Destination := Destroyed e),
                promise := Rejected e\<rparr>
         else s\<lparr>state_of := (state_of s)(Response := Destroyed e, Decompress := Destroyed e)\<rparr>)
      else s\<lparr>state_of := (state_of s)(Response := Destroyed e)\<rparr>)"
  by (auto simp: dispatch.simps tar_wired_def tar_listeners_def destroy_def can_fail_def
      drain_Nil drain_Cons emit_def reject_def)

lemma tar_completes_other:
  "tar_wired s \<Longrightarrow> st \<noteq> Destination \<Longrightarrow> state_of s st = Live \<Longrightarrow>
   dispatch s (Completes st) = s\<lparr>state_of := (state_of s)(st := Finished)\<rparr>"
  by (cases st)
    (simp_all add: dispatch.simps tar_wired_def tar_listeners_def complete_def drain_Nil drain_Cons emit_def)

lemma tar_fails_writesink:
  "tar_wired s \<Longrightarrow> state_of s WriteSink = Live \<Longrightarrow>
   dispatch s (Fails WriteSink e) = s\<lparr>state_of := (state_of s)(WriteSink := Destroyed e)\<rparr>"
  by (simp add: dispatch.simps tar_wired_def tar_listeners_def destroy_def can_fail_def
      drain_Nil drain_Cons emit_def)

lemma tar_wired_dispatch:
  assumes "tar_wired s"
  shows "tar_wired (dispatch s h) \<and> files (dispatch s h) = files s \<and>
         received (dispatch s h) = received s @ map (Pair Decompress) (chunks_of [h])"
proof (cases h)
  case (Chunk d)
  with assms show ?thesis
    by (simp add: tar_chunk chunks_of_def) (simp add: tar_wired_def can_fail_def)
next
  case (Fails st e)
  show ?thesis
  proof (cases "can_fail s st")
    case False
    with assms Fails show ?thesis
      by (simp add: tar_fails_ended chunks_of_def)
  next
    case True
    show ?thesis
    proof (cases st)
      case Response
      with True have "state_of s Response = Live" by (simp add: can_fail_def)
      with assms Fails Response show ?thesis
        by (simp add: tar_fails_response chunks_of_def) (auto simp: tar_wired_def can_fail_def)
    next
      case Decompress
      with assms Fails True show ?thesis
        by (simp add: tar_fails_decompress chunks_of_def) (auto simp: tar_wired_def can_fail_def)
    next
      case Destination
      with True have "state_of s Destination = Live" by (simp add: can_fail_def)
      with assms Fails Destination show ?thesis
        by (simp add: tar_fails_destination chunks_of_def) (auto simp: tar_wired_def can_fail_def)
    next
      case WriteSink
      with True have "state_of s WriteSink = Live" by (simp add: can_fail_def)
      with assms Fails WriteSink show ?thesis
        by (simp add: tar_fails_writesink chunks_of_def) (auto simp: tar_wired_def can_fail_def)
    qed
  qed
next
  case (Completes st)
  show ?thesis
  proof (cases "state_of s st = Live")
    case False
    with assms Completes show ?thesis
      by (simp add: tar_completes_not_live chunks_of_def)
  next
    case True
    with assms Completes show ?thesis
      by (cases "st = Destination")
        (simp_all add: tar_completes_destination tar_completes_other chunks_of_def,
         auto simp: tar_wired_def can_fail_def)
  qed
qed

lemma tar_wired_dispatch_all:
  "tar_wired s \<Longrightarrow>
   tar_wired (dispatch_all hs s) \<and> files (dispatch_all hs s) = files s \<and>
   received (dispatch_all hs s) = received s @ map (Pair Decompress) (chunks_of hs)"
proof (induction hs rule: rev_induct)
  case Nil
  then show ?case by (simp add: dispatch_all_def chunks_of_def)
next
  case (snoc h hs)
  then show ?case
    using tar_wired_dispatch [of "dispatch_all hs s" h]
    by (simp add: dispatch_all_def chunks_of_snoc)
qed

lemma extractTar_wire_wired:
  assumes "unwired s"
  shows "tar_wired (extractTar_wire p s)"
    and "files (extractTar_wire p s) = files s"
    and "received (extractTar_wire p s) = map (Pair Decompress) (backlog s)"
    and "state_of (extractTar_wire p s) = (state_of s)(Decompress := Live, Destination := Live)"
  using assms
  by (simp_all add: unwired_def tar_wired_def tar_listeners_def extractTar_wire_def can_fail_def
      create_def pipe_def on_def resume_def flow_def Let_def)

lemma extractTar_mkdir_failed:
  "mkdir_fault env = Some e \<Longrightarrow>
   extractTar env p s0 = (Rejects e, dispatch_all (during_mkdir env) (pause s0))"
  by (simp add: extractTar_def mkdir_recursive_def Let_def)

lemma extractTar_mkdir_ok:
  "mkdir_fault env = None \<Longrightarrow>
   snd (extractTar env p s0) =
     dispatch_all (during_extract env)
       (extractTar_wire p
         ((dispatch_all (during_mkdir env) (pause s0))
            \<lparr>files := files (dispatch_all (during_mkdir env) (pause s0)) \<union> set (prefixes p)\<rparr>)) \<and>
   fst (extractTar env p s0) = await p (snd (extractTar env p s0))"
  by (simp add: extractTar_def mkdir_recursive_def Let_def)

lemma extractTar_state_wired:
  "mkdir_fault env = None \<Longrightarrow> tar_wired (snd (extractTar env p (initial fs0 fl)))"
  by (simp add: extractTar_mkdir_ok tar_wired_dispatch_all extractTar_wire_wired(1)
      unwired_files_update unwired_dispatch_all unwired_pause_initial)

lemma extractTar_state_unwired:
  "mkdir_fault env = Some e \<Longrightarrow> unwired (snd (extractTar env p (initial fs0 fl)))"
  by (simp add: extractTar_mkdir_failed unwired_dispatch_all unwired_pause_initial)


lemma tar_destination_step:
  assumes "tar_wired s"
  shows "state_of (dispatch s h) Destination = state_of s Destination \<or>
         state_of s Destination = Live \<and>
         (h = Completes Destination \<and> state_of (dispatch s h) Destination = Finished \<or>
          (\<exists>st e. h = Fails st e \<and> state_of (dispatch s h) Destination = Destroyed e))"
proof (cases h)
  case (Chunk d)
  with assms show ?thesis by (simp add: tar_chunk)
next
  case (Fails st e)
  show ?thesis
  proof (cases "can_fail s st")
    case False
    with assms Fails show ?thesis by (simp add: tar_fails_ended)
  next
    case True
    show ?thesis
    proof (cases st)
      case Response
      with True have "state_of s Response = Live" by (simp add: can_fail_def)
      with assms Fails Response show ?thesis by (simp add: tar_fails_response)
    next
      case Decompress
      with assms Fails True show ?thesis by (simp add: tar_fails_decompress)
    next
      case Destination
      with True have "state_of s Destination = Live" by (simp add: can_fail_def)
      with assms Fails Destination show ?thesis by (simp add: tar_fails_destination)
    next
      case WriteSink
      with True have "state_of s WriteSink = Live" by (simp add: can_fail_def)
      with assms Fails WriteSink show ?thesis by (simp add: tar_fails_writesink)
    qed
  qed
next
  case (Completes st)
  show ?thesis
  proof (cases "state_of s st = Live")
    case False
    with assms Completes show ?thesis by (simp add: tar_completes_not_live)
  next
    case True
    with assms Completes show ?thesis
      by (cases "st = Destination")
        (simp_all add: tar_completes_destination tar_completes_other)
  qed
qed

lemma tar_destination_cause:
  assumes "tar_wired w" and "state_of w Destination = Live"
  shows "(state_of (dispatch_all hs w) Destination = Finished \<longrightarrow> Completes Destination \<in> set hs) \<and>
         (state_of (dispatch_all hs w) Destination = Destroyed e \<longrightarrow> (\<exists>st. Fails st e \<in> set hs))"
proof (induction hs rule: rev_induct)
  case Nil
  from assms(2) show ?case by (simp add: dispatch_all_def)
next
  case (snoc h hs)
  let ?s = "dispatch_all hs w"
  have w: "tar_wired ?s"
    using assms(1) by (simp add: tar_wired_dispatch_all)
  have d: "dispatch_all (hs @ [h]) w = dispatch ?s h"
    by (simp add: dispatch_all_def)
  from tar_destination_step [OF w, of h] snoc show ?case
    unfolding d by auto
qed

section \<open>Claims about \<^verbatim>\<open>extractTar\<close>\<close>

lemmas loop_defs =
  dispatch_all_def dispatch.simps pause_def resume_def initial_def await_def
  deliver_def flow_def drain_Nil drain_Cons emit_def destroy_def can_fail_def complete_def
  create_def pipe_def on_def reject_def resolve_def Let_def

lemmas tar_run_defs = extractTar_def extractTar_wire_def mkdir_recursive_def loop_defs

text \<open>
  C6. \<^verbatim>\<open>extractTar\<close> resolves exactly when the tar extraction, its last stage,
  has finished, and then with the path it was given; it rejects with the error when that
  stage has been destroyed with one, whether the error arose in the stage or reached it
  from a stage before it. It resolves only when the last stage signalled \<^verbatim>\<open>finish\<close>
  during the extraction, and it rejects only with the error of \<^verbatim>\<open>mkdir\<close> or of a
  stage.
\<close>

theorem extractTar_settles_with_terminal_stage:
  "(let result = extractTar env p (initial fs0 fl)
    in (fst result = Resolves p' \<longleftrightarrow>
          p' = p \<and> state_of (snd result) Destination = Finished) \<and>
       (state_of (snd result) Destination = Destroyed e \<longrightarrow> fst result = Rejects e) \<and>
       (fst result = Resolves p' \<longrightarrow> Completes Destination \<in> set (during_extract env)) \<and>
       (fst result = Rejects e \<longrightarrow>
          mkdir_fault env = Some e \<or> (\<exists>st. Fails st e \<in> set (during_extract env))))"
proof (cases "mkdir_fault env")
  case None
  let ?s = "snd (extractTar env p (initial fs0 fl))"
  let ?s1 = "dispatch_all (during_mkdir env) (pause (initial fs0 fl))"
  let ?w = "extractTar_wire p (?s1\<lparr>files := files ?s1 \<union> set (prefixes p)\<rparr>)"
  have u: "unwired (?s1\<lparr>files := files ?s1 \<union> set (prefixes p)\<rparr>)"
    by (simp add: unwired_files_update unwired_dispatch_all unwired_pause_initial)
  have ww: "tar_wired ?w" using u by (rule extractTar_wire_wired(1))
  have wl: "state_of ?w Destination = Live"
    by (simp add: extractTar_wire_wired(4) [OF u])
  have s: "?s = dispatch_all (during_extract env) ?w"
    using None by (simp add: extractTar_mkdir_ok)
  have w: "tar_wired ?s" using None by (rule extractTar_state_wired)
  have o: "fst (extractTar env p (initial fs0 fl)) = await p ?s"
    using None by (simp add: extractTar_mkdir_ok)
  note c = tar_destination_cause [OF ww wl, of "during_extract env", folded s]
  have 1: "fst (extractTar env p (initial fs0 fl)) = Resolves p' \<longleftrightarrow>
          p' = p \<and> state_of ?s Destination = Finished"
    using w unfolding o by (auto simp: tar_wired_def await_def split: lifecycle.splits)
  have 2: "state_of ?s Destination = Destroyed e \<longrightarrow>
       fst (extractTar env p (initial fs0 fl)) = Rejects e"
    using w unfolding o by (auto simp: tar_wired_def await_def split: lifecycle.splits)
  have 3: "fst (extractTar env p (initial fs0 fl)) = Rejects e \<longrightarrow>
       state_of ?s Destination = Destroyed e"
    using w unfolding o by (auto simp: tar_wired_def await_def split: lifecycle.splits)
  from 1 2 3 c [of e] show ?thesis
    unfolding Let_def by blast
next
  case (Some e')
  let ?s = "snd (extractTar env p (initial fs0 fl))"
  have "unwired ?s" using Some by (rule extractTar_state_unwired)
  then have "state_of ?s Destination = Absent" by (simp add: unwired_def)
  then show ?thesis using Some by (simp add: extractTar_mkdir_failed Let_def)
qed

theorem extractTar_settles_with_terminal_stage_witness:
  "fst (extractTar \<lparr>mkdir_fault = None, during_mkdir = [Chunk ''ab''],
                    during_extract = [Chunk ''cd'', Completes Destination]\<rparr>
          [''opt'', ''coder''] (initial {} True)) = Resolves [''opt'', ''coder''] \<and>
   fst (extractTar \<lparr>mkdir_fault = None, during_mkdir = [],
                    during_extract = [Chunk ''cd'', Fails Response (JsError ''ECONNRESET'')]\<rparr>
          [''opt'', ''coder''] (initial {} True)) = Rejects (JsError ''ECONNRESET'')"
proof -
  let ?ok = "\<lparr>mkdir_fault = None, during_mkdir = [Chunk ''ab''],
              during_extract = [Chunk ''cd'', Completes Destination]\<rparr>"
  let ?bad = "\<lparr>mkdir_fault = None, during_mkdir = [],
               during_extract = [Chunk ''cd'', Fails Response (JsError ''ECONNRESET'')]\<rparr>"
  let ?p = "[''opt'', ''coder'']"
  have f: "state_of (snd (extractTar ?ok ?p (initial {} True))) Destination = Finished"
    by (simp add: tar_run_defs)
  have d: "state_of (snd (extractTar ?bad ?p (initial {} True))) Destination =
             Destroyed (JsError ''ECONNRESET'')"
    by (simp add: tar_run_defs)
  have 1: "fst (extractTar ?ok ?p (initial {} True)) = Resolves ?p"
    using extractTar_settles_with_terminal_stage [of ?ok ?p "{}" True ?p] f
    unfolding Let_def by blast
  have 2: "fst (extractTar ?bad ?p (initial {} True)) = Rejects (JsError ''ECONNRESET'')"
    using extractTar_settles_with_terminal_stage [of ?bad ?p "{}" True _ "JsError ''ECONNRESET''"] d
    unfolding Let_def by blast
  from 1 2 show ?thesis by simp
qed




text \<open>
  C7. \<^verbatim>\<open>extractTar\<close> pauses the input stream on entry. Whatever happens while the call
  waits for \<^verbatim>\<open>mkdir\<close>, the stream stays paused: no chunk reaches a stage or is lost,
  the stream holds them. When \<^verbatim>\<open>mkdir\<close> fails, the call rejects and never resumes the
  stream. When it succeeds, the stream flows only from the state in which the destination
  directory and its parents exist, both pipes are in place and all four listeners are
  attached; every chunk, held or later, reaches the gunzip stage in order and none is
  lost.
\<close>

theorem extractTar_resume_after_wiring:
  "(let waiting = dispatch_all hs (pause (initial fs0 fl))
    in \<not> flowing waiting \<and> received waiting = [] \<and> dropped waiting = [] \<and>
       backlog waiting = chunks_of hs \<and> pipes waiting = [] \<and> listeners waiting = []) \<and>
   (mkdir_fault env = Some e \<longrightarrow>
      extractTar env p (initial fs0 fl) =
        (Rejects e, dispatch_all (during_mkdir env) (pause (initial fs0 fl)))) \<and>
   (mkdir_fault env = None \<longrightarrow>
      (let s1 = dispatch_all (during_mkdir env) (pause (initial fs0 fl));
           w = extractTar_wire p (s1\<lparr>files := files s1 \<union> set (prefixes p)\<rparr>);
           final = snd (extractTar env p (initial fs0 fl))
       in flowing w \<and> set (prefixes p) \<subseteq> files w \<and>
          pipes w = [(Response, Decompress), (Decompress, Destination)] \<and>
          listeners w =
            [(Response, OnError, DestroyStage Decompress),
             (Decompress, OnError, DestroyStage Destination),
             (Destination, OnError, RejectPromise),
             (Destination, OnFinish, ResolvePromise)] \<and>
          final = dispatch_all (during_extract env) w \<and>
          received final = map (Pair Decompress) (chunks_of (during_mkdir env @ during_extract env)) \<and>
          dropped final = []))"
proof -
  have u: "unwired (dispatch_all hs (pause (initial fs0 fl)))" for hs
    by (simp add: unwired_dispatch_all unwired_pause_initial)
  have b: "backlog (dispatch_all hs (pause (initial fs0 fl))) = chunks_of hs" for hs
    using unwired_dispatch_all [OF unwired_pause_initial, of hs fs0 fl]
    by (simp add: pause_def initial_def)
  have f: "files (dispatch_all hs (pause (initial fs0 fl))) = fs0" for hs
    using unwired_dispatch_all [OF unwired_pause_initial, of hs fs0 fl]
    by (simp add: pause_def initial_def)
  have 1: "(let waiting = dispatch_all hs (pause (initial fs0 fl))
    in \<not> flowing waiting \<and> received waiting = [] \<and> dropped waiting = [] \<and>
       backlog waiting = chunks_of hs \<and> pipes waiting = [] \<and> listeners waiting = [])"
    using u [of hs] b [of hs] by (simp add: unwired_def Let_def)
  have 2: "mkdir_fault env = Some e \<longrightarrow>
      extractTar env p (initial fs0 fl) =
        (Rejects e, dispatch_all (during_mkdir env) (pause (initial fs0 fl)))"
    by (simp add: extractTar_mkdir_failed)
  let ?s1 = "dispatch_all (during_mkdir env) (pause (initial fs0 fl))"
  let ?w = "extractTar_wire p (?s1\<lparr>files := files ?s1 \<union> set (prefixes p)\<rparr>)"
  let ?final = "snd (extractTar env p (initial fs0 fl))"
  have u1: "unwired (?s1\<lparr>files := files ?s1 \<union> set (prefixes p)\<rparr>)"
    using u by (simp add: unwired_files_update)
  note W = extractTar_wire_wired [OF u1, of p]
  have 3: "flowing ?w \<and> set (prefixes p) \<subseteq> files ?w \<and>
          pipes ?w = [(Response, Decompress), (Decompress, Destination)] \<and>
          listeners ?w =
            [(Response, OnError, DestroyStage Decompress),
             (Decompress, OnError, DestroyStage Destination),
             (Destination, OnError, RejectPromise),
             (Destination, OnFinish, ResolvePromise)]"
    using W(1) by (simp add: W(2) tar_wired_def tar_listeners_def)
  have 4: "?final = dispatch_all (during_extract env) ?w \<and>
          received ?final = map (Pair Decompress) (chunks_of (during_mkdir env @ during_extract env)) \<and>
          dropped ?final = []" if ok: "mkdir_fault env = None"
  proof -
    have e: "?final = dispatch_all (during_extract env) ?w"
      using ok by (simp add: extractTar_mkdir_ok)
    note D = tar_wired_dispatch_all [OF W(1), of "during_extract env"]
    have "received ?final = map (Pair Decompress) (chunks_of (during_mkdir env) @ chunks_of (during_extract env))"
      unfolding e using D by (simp add: W(3) b)
    moreover have "dropped ?final = []"
      unfolding e using D by (simp add: tar_wired_def)
    ultimately show ?thesis using e by (simp add: chunks_of_def)
  qed
  from 1 2 3 4 show ?thesis unfolding Let_def by blast
qed

theorem extractTar_resume_after_wiring_witness:
  "\<not> flowing (dispatch_all [Chunk ''ab''] (pause (initial {} True))) \<and>
   backlog (dispatch_all [Chunk ''ab''] (pause (initial {} True))) = [''ab''] \<and>
   received (dispatch_all [Chunk ''ab''] (pause (initial {} True))) = [] \<and>
   fst (extractTar \<lparr>mkdir_fault = Some (JsError ''EACCES''), during_mkdir = [Chunk ''ab''],
                    during_extract = []\<rparr> [''opt''] (initial {} True)) =
     Rejects (JsError ''EACCES'') \<and>
   \<not> flowing (snd (extractTar \<lparr>mkdir_fault = Some (JsError ''EACCES''),
        during_mkdir = [Chunk ''ab''], during_extract = []\<rparr> [''opt''] (initial {} True))) \<and>
   received (snd (extractTar \<lparr>mkdir_fault = None, during_mkdir = [Chunk ''ab''],
        during_extract = [Chunk ''cd'']\<rparr> [''opt''] (initial {} True))) =
     [(Decompress, ''ab''), (Decompress, ''cd'')] \<and>
   dropped (snd (extractTar \<lparr>mkdir_fault = None, during_mkdir = [Chunk ''ab''],
        during_extract = [Chunk ''cd'']\<rparr> [''opt''] (initial {} True))) = []"
proof -
  let ?fail = "\<lparr>mkdir_fault = Some (JsError ''EACCES''), during_mkdir = [Chunk ''ab''],
                during_extract = []\<rparr>"
  let ?ok = "\<lparr>mkdir_fault = None, during_mkdir = [Chunk ''ab''], during_extract = [Chunk ''cd'']\<rparr>"
  let ?waiting = "dispatch_all [Chunk ''ab''] (pause (initial {} True))"
  note F = extractTar_resume_after_wiring [of "[Chunk ''ab'']" "{}" True ?fail "JsError ''EACCES''" "[''opt'']",
      unfolded Let_def]
  note K = extractTar_resume_after_wiring [of "[Chunk ''ab'']" "{}" True ?ok "JsError ''EACCES''" "[''opt'']",
      unfolded Let_def]
  have failed: "mkdir_fault ?fail = Some (JsError ''EACCES'')" and ok: "mkdir_fault ?ok = None"
    by simp_all
  have c: "chunks_of [Chunk ''ab''] = [''ab'']"
    "chunks_of (during_mkdir ?ok @ during_extract ?ok) = [''ab'', ''cd'']"
    by (simp_all add: chunks_of_def)
  have w: "\<not> flowing ?waiting \<and> backlog ?waiting = [''ab''] \<and> received ?waiting = []"
    using F [THEN conjunct1] by (simp add: c)
  have f: "extractTar ?fail [''opt''] (initial {} True) = (Rejects (JsError ''EACCES''), ?waiting)"
    using F [THEN conjunct2, THEN conjunct1, rule_format, OF failed] by simp
  have k: "received (snd (extractTar ?ok [''opt''] (initial {} True))) =
             map (Pair Decompress) (chunks_of (during_mkdir ?ok @ during_extract ?ok)) \<and>
           dropped (snd (extractTar ?ok [''opt''] (initial {} True))) = []"
    using K [THEN conjunct2, THEN conjunct2, rule_format, OF ok] by blast
  from w k show ?thesis
    unfolding f c by simp
qed

section \<open>Properties of \<^verbatim>\<open>extractZip\<close>\<close>

lemma zip_wired_dispatch:
  assumes "zip_wired s"
  shows "zip_wired (dispatch s h) \<and> files (dispatch s h) = files s"
proof (cases h)
  case (Chunk d)
  with assms show ?thesis
    by (simp add: dispatch.simps zip_wired_def deliver_def flow_def drain_Nil)
next
  case (Fails st e)
  with assms show ?thesis
    by (cases st; cases "can_fail s st"; cases "state_of s WriteSink = Live")
      (auto simp: dispatch.simps zip_wired_def zip_listeners_def destroy_def can_fail_def
         drain_Nil drain_Cons emit_def reject_def)
next
  case (Completes st)
  with assms show ?thesis
    by (cases st; cases "state_of s st = Live")
      (simp_all add: dispatch.simps zip_wired_def zip_listeners_def complete_def drain_Nil
         drain_Cons emit_def resolve_def)
qed

lemma zip_wired_dispatch_all:
  "zip_wired s \<Longrightarrow> zip_wired (dispatch_all hs s) \<and> files (dispatch_all hs s) = files s"
proof (induction hs rule: rev_induct)
  case Nil
  then show ?case by (simp add: dispatch_all_def)
next
  case (snoc h hs)
  then show ?case
    using zip_wired_dispatch [of "dispatch_all hs s" h]
    by (simp add: dispatch_all_def)
qed

lemma extractZip_wire_wired:
  assumes "unwired s"
  shows "zip_wired (extractZip_wire z s)"
    and "files (extractZip_wire z s) = insert z (files s)"
  using assms
  by (simp_all add: unwired_def zip_wired_def zip_listeners_def extractZip_wire_def
      create_def pipe_def on_def resume_def flow_def Let_def)

lemma extractZip_written:
  assumes "unwired s"
  shows "files (dispatch_all hs (extractZip_wire z s)) = insert z (files s)"
  using zip_wired_dispatch_all [OF extractZip_wire_wired(1) [OF assms], of hs z]
    extractZip_wire_wired(2) [OF assms, of z]
  by simp

text \<open>
  When \<^verbatim>\<open>extractZip\<close> resolves, it resolves with the path it was given, and nothing
  is left at or below the staging namespace.
\<close>

lemma extractZip_resolves_cleaned:
  assumes "fst (extractZip env p (initial fs0 fl)) = Resolves p'"
  shows "p' = p \<and> (\<forall>q \<in> files (snd (extractZip env p (initial fs0 fl))). \<not> prefix (staging_dir env) q)"
  using assms
  by (auto simp: extractZip_def Let_def clean_def rmdir_recursive_def staging_dir_def
      path_join_staging split: sum.splits prod.splits outcome.splits option.splits)

text \<open>
  When \<^verbatim>\<open>extractZip\<close> rejects after the staging directory has been made, for another
  reason than a failure of the removal itself, the staging directory still exists: the
  rejected \<^verbatim>\<open>await\<close> has ended the call before \<^verbatim>\<open>clean\<close>.
\<close>

lemma extractZip_failure_keeps_staging:
  assumes "download_mkdir_fault env = None" "staging_mkdir_fault env = None"
    and "mkdtemp_result env = Inr rand" and "rmdir_fault env = None"
    and "fst (extractZip env p (initial fs0 fl)) = Rejects e"
  shows "staging_dir env @ [''tmp-'' @ rand] \<in> files (snd (extractZip env p (initial fs0 fl)))"
proof -
  define temp where "temp = staging_dir env @ [''tmp-'' @ rand]"
  define s1 where "s1 = dispatch_all (during_setup env) (pause (initial fs0 fl))"
  define f2 where "f2 = insert temp (files s1 \<union> set (prefixes p) \<union> set (prefixes (staging_dir env)))"
  define z where "z = temp @ [''archive.zip'']"
  define s3 where "s3 = dispatch_all (during_write env) (extractZip_wire z (s1\<lparr>files := f2\<rparr>))"
  have u: "unwired (s1\<lparr>files := f2\<rparr>)"
    by (simp add: s1_def unwired_files_update unwired_dispatch_all unwired_pause_initial)
  have f3: "files s3 = insert z f2"
    unfolding s3_def using extractZip_written [OF u] by simp
  have t: "tmpdir (platform env) (os_tmpdir env) ''zip-staging'' (staging_mkdir_fault env)
             (mkdtemp_result env)
             (files s1 \<union> set (prefixes p)) = (Inr temp, f2)"
    using assms(2,3)
    by (simp add: tmpdir_def mkdir_recursive_def mkdtemp_def staging_dir_def temp_def f2_def
        path_join_staging path_join_tmp Let_def)
  have "snd (extractZip env p (initial fs0 fl)) = s3"
    using assms(1,4,5) unfolding extractZip_def Let_def s1_def [symmetric]
    by (auto simp: mkdir_recursive_def t s3_def z_def clean_def rmdir_recursive_def
        path_join_archive split: outcome.splits sum.splits)
  then show ?thesis
    by (simp add: f3 f2_def temp_def)
qed

text \<open>
  C2. The staging directory is not removed whatever the outcome. When the write fails
  (here with \<^verbatim>\<open>ENOSPC\<close>), and when the extraction fails (here on a file that is not a
  zip archive), the call rejects with that error and the staging directory
  \<^verbatim>\<open>/tmp/coder/zip-staging/tmp-Ab12Cd\<close> is still there, in the second case with the
  archive in it: \<^verbatim>\<open>clean\<close> runs on the path of success only.
\<close>

theorem extractZip_failure_leaves_staging:
  "fst (extractZip env_write_error [''home'', ''bin''] (initial {} True)) =
     Rejects (JsError ''ENOSPC'') \<and>
   [''tmp'', ''coder'', ''zip-staging'', ''tmp-Ab12Cd''] \<in>
     files (snd (extractZip env_write_error [''home'', ''bin''] (initial {} True))) \<and>
   fst (extractZip env_unzip_error [''home'', ''bin''] (initial {} True)) =
     Rejects (JsError ''end of central directory record signature not found'') \<and>
   [''tmp'', ''coder'', ''zip-staging'', ''tmp-Ab12Cd''] \<in>
     files (snd (extractZip env_unzip_error [''home'', ''bin''] (initial {} True))) \<and>
   [''tmp'', ''coder'', ''zip-staging'', ''tmp-Ab12Cd'', ''archive.zip''] \<in>
     files (snd (extractZip env_unzip_error [''home'', ''bin''] (initial {} True)))"
  by (simp add: env_write_error_def env_unzip_error_def extractZip_def extractZip_wire_def
      mkdir_recursive_def tmpdir_def mkdtemp_def unzip_def path_join_def loop_defs)


end
